theory Spec2Isabelle
  imports Main "HOL-Library.Multiset" "HOL-Library.Sublist"
begin

section \<open>The Huffman tree node\<close>

text \<open>
  \<^verbatim>\<open>struct HuffmanNode { char data; int freq; shared_ptr<HuffmanNode> left, right; }\<close>.
  A \<^verbatim>\<open>shared_ptr\<close> that may be null is an option. The tree is never mutated after it is
  built, so a node is a value.

  Frequencies are \<^typ>\<open>int\<close>, without a bound, where the source has a 32-bit \<^verbatim>\<open>int\<close>.
  The two agree as long as no count and no sum leaves the range of the 32-bit \<^verbatim>\<open>int\<close>, and
  that is so when the frequencies are not negative and add up to less than \<open>2^31\<close> (lemma
  \<open>tree_freq_bounds\<close>), in particular for a text shorter than \<open>2^31\<close> bytes (lemma
  \<open>nodes_freq_le_length\<close>). Beyond that the source's addition overflows. Every theorem below
  that speaks about frequencies carries this bound as a hypothesis; the theorems about the
  shape of the tree and about the codes do not depend on the frequencies.
\<close>

datatype HuffmanNode =
  Node (data: char) (freq: int) (left: "HuffmanNode option") (right: "HuffmanNode option")

text \<open>The constructor for leaf nodes: \<^verbatim>\<open>HuffmanNode(char data, int freq)\<close>.\<close>

definition leafNode :: "char \<Rightarrow> int \<Rightarrow> HuffmanNode" where
  "leafNode d f = Node d f None None"

text \<open>
  The constructor for internal nodes: \<^verbatim>\<open>HuffmanNode(l, r)\<close>, with data \<^verbatim>\<open>'\0'\<close>. The sum
  is the source's \<^verbatim>\<open>l->freq + r->freq\<close> while it stays below \<open>2^31\<close>.
\<close>

definition innerNode :: "HuffmanNode \<Rightarrow> HuffmanNode \<Rightarrow> HuffmanNode" where
  "innerNode l r = Node (CHR 0x00) (freq l + freq r) (Some l) (Some r)"

definition isLeaf :: "HuffmanNode \<Rightarrow> bool" where
  "isLeaf n \<longleftrightarrow> left n = None \<and> right n = None"

text \<open>\<^verbatim>\<open>Compare::operator()\<close>: true when \<open>a\<close> has lower priority than \<open>b\<close>.\<close>

definition Compare :: "HuffmanNode \<Rightarrow> HuffmanNode \<Rightarrow> bool" where
  "Compare a b \<longleftrightarrow> freq a > freq b"

section \<open>generateCodes\<close>

text \<open>
  The code table \<^verbatim>\<open>unordered_map<char, string>\<close> is a map; a code is a string of the
  characters \<^verbatim>\<open>'0'\<close> and \<^verbatim>\<open>'1'\<close>. The table is passed by reference and returned updated.
\<close>

fun generateCodes :: "HuffmanNode option \<Rightarrow> string \<Rightarrow> (char \<rightharpoonup> string) \<Rightarrow> (char \<rightharpoonup> string)" where
  "generateCodes None code huffmanCodes = huffmanCodes"
| "generateCodes (Some (Node d f l r)) code huffmanCodes =
     (if isLeaf (Node d f l r) then
        (if code = [] then huffmanCodes(d \<mapsto> ''0'') else huffmanCodes(d \<mapsto> code))
      else generateCodes r (code @ ''1'') (generateCodes l (code @ ''0'') huffmanCodes))"

section \<open>main: counting, the priority queue, the tree-build loop\<close>

text \<open>
  Step 1, \<^verbatim>\<open>freqMap[c]++\<close>: a missing key is inserted with value 0, then incremented. The
  count is the source's while it stays below \<open>2^31\<close>, that is for a text shorter than that.
\<close>

fun countFreq :: "string \<Rightarrow> (char \<rightharpoonup> int) \<Rightarrow> (char \<rightharpoonup> int)" where
  "countFreq [] freqMap = freqMap"
| "countFreq (c # text) freqMap =
     countFreq text (freqMap(c \<mapsto> (case freqMap c of None \<Rightarrow> 0 | Some n \<Rightarrow> n) + 1))"

text \<open>
  \<^verbatim>\<open>for (auto pair : freqMap)\<close> visits every entry once, in an order the standard library
  chooses: \<open>ps\<close> is such a visit of the map \<open>m\<close>.
\<close>

definition iterates :: "(char \<times> int) list \<Rightarrow> (char \<rightharpoonup> int) \<Rightarrow> bool" where
  "iterates ps m \<longleftrightarrow> distinct (map fst ps) \<and> map_of ps = m"

text \<open>Step 2: one leaf per entry is pushed. The queue is the list of its elements.\<close>

definition initQueue :: "(char \<times> int) list \<Rightarrow> HuffmanNode list" where
  "initQueue ps = map (\<lambda>p. leafNode (fst p) (snd p)) ps"

text \<open>
  \<^verbatim>\<open>pq.top()\<close> of a \<^verbatim>\<open>priority_queue\<close> ordered by \<open>Compare\<close>: an element that \<open>Compare\<close>
  puts below no other element. Which one among several of equal frequency is left to the
  library, so \<open>top\<close> is a relation.
\<close>

definition pq_top :: "HuffmanNode list \<Rightarrow> HuffmanNode \<Rightarrow> bool" where
  "pq_top pq n \<longleftrightarrow> n \<in> set pq \<and> (\<forall>m \<in> set pq. \<not> Compare n m)"

text \<open>
  Step 3, the loop \<^verbatim>\<open>while (pq.size() > 1)\<close>: \<open>buildLoop pq root\<close> holds when the loop
  started on \<open>pq\<close> can end with \<open>root = pq.top()\<close>.
\<close>

inductive buildLoop :: "HuffmanNode list \<Rightarrow> HuffmanNode \<Rightarrow> bool" where
  exit: "\<not> 1 < length pq \<Longrightarrow> pq_top pq root \<Longrightarrow> buildLoop pq root"
| iter: "1 < length pq \<Longrightarrow> pq_top pq l \<Longrightarrow> pq_top (remove1 l pq) r \<Longrightarrow>
         buildLoop (innerNode l r # remove1 r (remove1 l pq)) root \<Longrightarrow> buildLoop pq root"

text \<open>Steps 1 to 3 of \<^verbatim>\<open>main\<close> for a non-empty text (an empty text returns at once).\<close>

inductive mainTree :: "string \<Rightarrow> HuffmanNode \<Rightarrow> bool" where
  "text \<noteq> [] \<Longrightarrow> iterates ps (countFreq text Map.empty) \<Longrightarrow> buildLoop (initQueue ps) root \<Longrightarrow>
   mainTree text root"

section \<open>main: encoding and decoding\<close>

text \<open>
  Step 5, \<^verbatim>\<open>encodedText += huffmanCodes[c]\<close>; \<^verbatim>\<open>operator[]\<close> on a missing key gives the
  empty string.
\<close>

fun encodeLoop :: "(char \<rightharpoonup> string) \<Rightarrow> string \<Rightarrow> string \<Rightarrow> string" where
  "encodeLoop huffmanCodes [] encodedText = encodedText"
| "encodeLoop huffmanCodes (c # text) encodedText =
     encodeLoop huffmanCodes text
       (encodedText @ (case huffmanCodes c of None \<Rightarrow> [] | Some code \<Rightarrow> code))"

text \<open>
  Step 6, the decode loop. \<^verbatim>\<open>currentNode->isLeaf()\<close> on a null \<open>currentNode\<close> dereferences a
  null pointer: the model stops with \<open>NullDereference\<close>.
\<close>

datatype error = NullDereference

fun decodeLoop :: "HuffmanNode \<Rightarrow> HuffmanNode \<Rightarrow> string \<Rightarrow> string \<Rightarrow> error + string" where
  "decodeLoop root currentNode [] decodedText = Inr decodedText"
| "decodeLoop root currentNode (b # bits) decodedText =
     (case (if b = CHR ''0'' then left currentNode else right currentNode) of
        None \<Rightarrow> Inl NullDereference
      | Some n \<Rightarrow>
          if isLeaf n then decodeLoop root root bits (decodedText @ [data n])
          else decodeLoop root n bits decodedText)"

section \<open>Predicates and functions used to state the properties\<close>

text \<open>
  A full tree: a node has no child or two, and a node with two children carries the sum of
  their frequencies.
\<close>

fun fullTree :: "HuffmanNode \<Rightarrow> bool" where
  "fullTree (Node d f None None) = True"
| "fullTree (Node d f (Some l) (Some r)) = (f = freq l + freq r \<and> fullTree l \<and> fullTree r)"
| "fullTree (Node d f _ _) = False"

text \<open>All the nodes of a tree, the root included.\<close>

fun nodes :: "HuffmanNode \<Rightarrow> HuffmanNode set" where
  "nodes (Node d f l r) =
     insert (Node d f l r)
       ((case l of None \<Rightarrow> {} | Some n \<Rightarrow> nodes n) \<union> (case r of None \<Rightarrow> {} | Some n \<Rightarrow> nodes n))"

text \<open>The (byte, frequency) pairs of the leaves, left to right.\<close>

fun leaves :: "HuffmanNode \<Rightarrow> (char \<times> int) list" where
  "leaves (Node d f l r) =
     (if l = None \<and> r = None then [(d, f)]
      else (case l of None \<Rightarrow> [] | Some n \<Rightarrow> leaves n) @ (case r of None \<Rightarrow> [] | Some n \<Rightarrow> leaves n))"

definition labels :: "HuffmanNode \<Rightarrow> char set" where
  "labels t = fst ` set (leaves t)"

text \<open>
  The path that \<open>generateCodes\<close> records for the byte \<open>c\<close> below a node of a full tree:
  the right subtree is written after the left one, so it wins where both hold \<open>c\<close>.
\<close>

fun pathTo :: "HuffmanNode \<Rightarrow> char \<Rightarrow> string" where
  "pathTo (Node d f (Some l) (Some r)) c =
     (if c \<in> labels r then CHR ''1'' # pathTo r c else CHR ''0'' # pathTo l c)"
| "pathTo (Node d f _ _) c = []"

text \<open>The children of a node, and the nodes at depth \<open>k\<close> below a node.\<close>

fun kids :: "HuffmanNode \<Rightarrow> HuffmanNode set" where
  "kids (Node d f l r) = set_option l \<union> set_option r"

fun level :: "nat \<Rightarrow> HuffmanNode \<Rightarrow> HuffmanNode set" where
  "level 0 t = {t}"
| "level (Suc k) t = (\<Union>c \<in> kids t. level k c)"

text \<open>
  The invariant of the tree-build loop that orders code lengths by frequency. Over all nodes
  of all trees in the queue:
  every node is full and has a frequency that is not negative; a node that already has a
  parent is no heavier than any element still in the queue; and of two nodes with parents,
  the strictly heavier one has the same parent or a strictly heavier parent.
\<close>

definition forestNodes :: "HuffmanNode list \<Rightarrow> HuffmanNode set" where
  "forestNodes pq = (\<Union>t \<in> set pq. nodes t)"

definition huffInv :: "HuffmanNode list \<Rightarrow> bool" where
  "huffInv pq \<longleftrightarrow>
     (\<forall>n \<in> forestNodes pq. fullTree n \<and> 0 \<le> freq n) \<and>
     (\<forall>n \<in> forestNodes pq. \<forall>c \<in> kids n. \<forall>u \<in> set pq. freq c \<le> freq u) \<and>
     (\<forall>n1 \<in> forestNodes pq. \<forall>n2 \<in> forestNodes pq. \<forall>x \<in> kids n1. \<forall>y \<in> kids n2.
        freq y < freq x \<longrightarrow> n1 = n2 \<or> freq n2 < freq n1)"

text \<open>
  The sum of the frequencies of the internal nodes of a tree. For a tree built from a text it
  is the length of the encoded text (lemma \<open>encoded_length_inner\<close>).
\<close>

fun cost :: "HuffmanNode \<Rightarrow> int" where
  "cost (Node d f l r) =
     (if isLeaf (Node d f l r) then 0 else f) +
     (case l of None \<Rightarrow> 0 | Some n \<Rightarrow> cost n) + (case r of None \<Rightarrow> 0 | Some n \<Rightarrow> cost n)"

section \<open>One run of the tree-build loop\<close>

text \<open>
  An executable run of the loop, where \<open>top\<close> is the first element of least frequency in the
  list. It is one of the runs \<open>buildLoop\<close> allows (lemma \<open>buildTree_sound\<close>), so
  \<open>buildLoop\<close> always has a result on a non-empty queue.
\<close>

fun topOf :: "HuffmanNode \<Rightarrow> HuffmanNode list \<Rightarrow> HuffmanNode" where
  "topOf best [] = best"
| "topOf best (n # ns) = topOf (if Compare best n then n else best) ns"

definition pickTop :: "HuffmanNode list \<Rightarrow> HuffmanNode option" where
  "pickTop pq = (case pq of [] \<Rightarrow> None | n # ns \<Rightarrow> Some (topOf n ns))"

function buildTree :: "HuffmanNode list \<Rightarrow> HuffmanNode option" where
  "buildTree pq =
     (if 1 < length pq then
        (case pickTop pq of None \<Rightarrow> None
         | Some l \<Rightarrow>
            (case pickTop (remove1 l pq) of None \<Rightarrow> None
             | Some r \<Rightarrow> buildTree (innerNode l r # remove1 r (remove1 l pq))))
      else pickTop pq)"
  by pat_completeness auto
termination
proof (relation "measure length")
  fix pq l r
  assume a: "1 < length pq" "pickTop pq = Some l" "pickTop (remove1 l pq) = Some r"
  have mem: "topOf b ns \<in> insert b (set ns)" for b ns
    by (induction ns arbitrary: b) auto
  have "l \<in> set pq" using a(2) mem[of "hd pq" "tl pq"]
    by (auto simp: pickTop_def split: list.splits)
  moreover have "r \<in> set (remove1 l pq)" using a(3) mem[of "hd (remove1 l pq)" "tl (remove1 l pq)"]
    by (auto simp: pickTop_def split: list.splits)
  ultimately show "(innerNode l r # remove1 r (remove1 l pq), pq) \<in> measure length"
    using a(1) by (simp add: length_remove1)
qed simp

text \<open>One visit of the frequency map of a text: each distinct byte once, with its count.\<close>

definition entries :: "string \<Rightarrow> (char \<times> int) list" where
  "entries text = map (\<lambda>c. (c, int (count_list text c))) (remdups text)"

section \<open>Lemmas\<close>

subsection \<open>Trees and the queue\<close>

lemma self_in_nodes [simp]: "t \<in> nodes t"
  by (cases t) simp

lemma nodes_trans: "n \<in> nodes t \<Longrightarrow> m \<in> nodes n \<Longrightarrow> m \<in> nodes t"
  by (induction t rule: nodes.induct) (auto split: option.splits)

lemma fullTree_nodes: "fullTree t \<Longrightarrow> n \<in> nodes t \<Longrightarrow> fullTree n"
  by (induction t rule: fullTree.induct) auto

lemma fullTree_shape:
  "fullTree n \<Longrightarrow> isLeaf n \<or> (\<exists>l r. left n = Some l \<and> right n = Some r \<and> freq n = freq l + freq r)"
  by (induction n rule: fullTree.induct) (auto simp: isLeaf_def)

lemma fullTree_leafNode [simp]: "fullTree (leafNode d f)"
  by (simp add: leafNode_def)

lemma fullTree_innerNode [simp]: "fullTree (innerNode l r) \<longleftrightarrow> fullTree l \<and> fullTree r"
  by (simp add: innerNode_def)

lemma pq_top_mem: "pq_top pq n \<Longrightarrow> n \<in> set pq"
  by (simp add: pq_top_def)

lemma pq_top_le: "pq_top pq n \<Longrightarrow> m \<in> set pq \<Longrightarrow> freq n \<le> freq m"
  by (auto simp: pq_top_def Compare_def)

lemma buildLoop_nodewise:
  assumes "buildLoop pq root"
    and "\<And>n. n \<in> set pq \<Longrightarrow> P n"
    and "\<And>l r. P l \<Longrightarrow> P r \<Longrightarrow> P (innerNode l r)"
  shows "P root"
  using assms
proof (induction rule: buildLoop.induct)
  case (exit pq root)
  then show ?case by (simp add: pq_top_mem)
next
  case (iter pq l r root)
  have l: "l \<in> set pq" using iter.hyps(2) by (rule pq_top_mem)
  have r: "r \<in> set pq" using pq_top_mem[OF iter.hyps(3)] by (meson notin_set_remove1)
  show ?case
  proof (rule iter.IH)
    fix n assume "n \<in> set (innerNode l r # remove1 r (remove1 l pq))"
    then have "n = innerNode l r \<or> n \<in> set pq"
      by (auto dest: notin_set_remove1)
    then show "P n" using iter.prems l r by auto
  qed (rule iter.prems(2))
qed

lemma buildLoop_fullTree: "buildLoop (initQueue ps) root \<Longrightarrow> fullTree root"
  by (erule buildLoop_nodewise) (auto simp: initQueue_def)

subsection \<open>The executable run is a run of the loop\<close>

lemma topOf_mem: "topOf best ns \<in> insert best (set ns)"
  by (induction ns arbitrary: best) auto

lemma topOf_le: "freq (topOf best ns) \<le> freq best \<and> (\<forall>m \<in> set ns. freq (topOf best ns) \<le> freq m)"
proof (induction ns arbitrary: best)
  case Nil
  show ?case by simp
next
  case (Cons n ns)
  show ?case using Cons.IH[of n] Cons.IH[of best]
    by (auto simp: Compare_def)
qed

lemma pickTop_top: "pickTop pq = Some n \<Longrightarrow> pq_top pq n"
  using topOf_mem topOf_le
  by (auto simp: pickTop_def pq_top_def Compare_def not_less split: list.splits)

lemma pickTop_Some: "pq \<noteq> [] \<Longrightarrow> \<exists>n. pickTop pq = Some n"
  by (cases pq) (auto simp: pickTop_def)

declare buildTree.simps [simp del]

lemma buildTree_sound: "pq \<noteq> [] \<Longrightarrow> \<exists>root. buildTree pq = Some root \<and> buildLoop pq root"
proof (induction pq rule: buildTree.induct)
  case (1 pq)
  show ?case
  proof (cases "1 < length pq")
    case False
    obtain n where n: "pickTop pq = Some n" using pickTop_Some[OF "1.prems"] by blast
    then show ?thesis using False
      by (auto simp: buildTree.simps[of pq] intro: buildLoop.exit pickTop_top)
  next
    case True
    obtain l where l: "pickTop pq = Some l" using pickTop_Some[OF "1.prems"] by blast
    have "l \<in> set pq" using pickTop_top[OF l] by (simp add: pq_top_def)
    then have "remove1 l pq \<noteq> []" using True by (cases pq) (auto split: if_splits)
    then obtain r where r: "pickTop (remove1 l pq) = Some r" using pickTop_Some by blast
    obtain root where root: "buildTree (innerNode l r # remove1 r (remove1 l pq)) = Some root"
        "buildLoop (innerNode l r # remove1 r (remove1 l pq)) root"
      using "1.IH"[OF True l r] by blast
    have "buildTree pq = Some root" using True l r root(1) by (simp add: buildTree.simps[of pq])
    moreover have "buildLoop pq root"
      using True pickTop_top[OF l] pickTop_top[OF r] root(2) by (rule buildLoop.iter)
    ultimately show ?thesis by blast
  qed
qed

subsection \<open>The frequency map\<close>

lemma countFreq_eq:
  "countFreq text m c =
     (if c \<in> set text then Some ((case m c of None \<Rightarrow> 0 | Some n \<Rightarrow> n) + int (count_list text c))
      else m c)"
  by (induction "text" arbitrary: m) (auto split: option.splits)

lemma iterates_entries: "iterates (entries text) (countFreq text Map.empty)"
  by (auto simp: iterates_def entries_def comp_def distinct_map inj_on_def
      map_of_map_restrict restrict_map_def countFreq_eq fun_eq_iff)

lemma iterates_mem:
  "iterates ps (countFreq text Map.empty) \<Longrightarrow>
     (c, n) \<in> set ps \<longleftrightarrow> c \<in> set text \<and> n = int (count_list text c)"
  by (auto simp: iterates_def countFreq_eq map_of_eq_Some_iff[symmetric] split: if_splits)

lemma initQueue_Nil [simp]: "initQueue ps = [] \<longleftrightarrow> ps = []"
  by (simp add: initQueue_def)

lemma mainTree_exec:
  "text \<noteq> [] \<Longrightarrow> \<exists>root. buildTree (initQueue (entries text)) = Some root \<and> mainTree text root"
proof -
  assume t: "text \<noteq> []"
  then have "entries text \<noteq> []" by (simp add: entries_def)
  then obtain root where "buildTree (initQueue (entries text)) = Some root"
      "buildLoop (initQueue (entries text)) root"
    using buildTree_sound[of "initQueue (entries text)"] by auto
  then show ?thesis using t iterates_entries by (auto intro: mainTree.intros)
qed

subsection \<open>The leaves of the result are the entries of the map\<close>

lemma leaves_innerNode [simp]: "leaves (innerNode l r) = leaves l @ leaves r"
  by (simp add: innerNode_def)

lemma leaves_leafNode [simp]: "leaves (leafNode d f) = [(d, f)]"
  by (simp add: leafNode_def)

lemma buildLoop_exit_singleton: "\<not> 1 < length pq \<Longrightarrow> pq_top pq root \<Longrightarrow> pq = [root]"
  by (cases pq) (auto simp: pq_top_def)

lemma buildLoop_leaves:
  "buildLoop pq root \<Longrightarrow> mset (leaves root) = (\<Sum>t\<leftarrow>pq. mset (leaves t))"
proof (induction rule: buildLoop.induct)
  case (exit pq root)
  then show ?case using buildLoop_exit_singleton by fastforce
next
  case (iter pq l r root)
  have l: "l \<in> set pq" using iter.hyps(2) by (rule pq_top_mem)
  have r: "r \<in> set (remove1 l pq)" using iter.hyps(3) by (rule pq_top_mem)
  show ?case
    using iter.IH sum_list_map_remove1[OF l, of "\<lambda>t. mset (leaves t)"]
      sum_list_map_remove1[OF r, of "\<lambda>t. mset (leaves t)"]
    by (simp add: ac_simps)
qed

lemma initQueue_leaves: "(\<Sum>t\<leftarrow>initQueue ps. mset (leaves t)) = mset ps"
  by (induction ps) (auto simp: initQueue_def)

lemma tree_leaves: "buildLoop (initQueue ps) root \<Longrightarrow> mset (leaves root) = mset ps"
  by (simp add: buildLoop_leaves initQueue_leaves)

subsection \<open>The code table of a full tree\<close>

lemma labels_leaf [simp]: "labels (Node d f None None) = {d}"
  by (simp add: labels_def)

lemma labels_inner [simp]: "labels (Node d f (Some l) (Some r)) = labels l \<union> labels r"
  by (auto simp: labels_def)

lemma labels_nonempty: "fullTree t \<Longrightarrow> labels t \<noteq> {}"
  by (induction t rule: fullTree.induct) auto

lemma isLeaf_Node [simp]: "isLeaf (Node d f l r) \<longleftrightarrow> l = None \<and> r = None"
  by (simp add: isLeaf_def)

lemma generateCodes_full:
  "fullTree t \<Longrightarrow>
   generateCodes (Some t) code m =
     (\<lambda>c. if c \<in> labels t then Some (if isLeaf t \<and> code = [] then ''0'' else code @ pathTo t c)
          else m c)"
proof (induction t arbitrary: code m rule: fullTree.induct)
  case (1 d f)
  show ?case by (auto simp: fun_eq_iff)
next
  case (2 d f l r)
  then have l: "fullTree l" and r: "fullTree r" by simp_all
  show ?case
    by (simp add: "2.IH"(1)[OF l] "2.IH"(2)[OF r] fun_eq_iff)
qed simp_all

lemma pathTo_nonempty: "fullTree t \<Longrightarrow> \<not> isLeaf t \<Longrightarrow> pathTo t c \<noteq> []"
  by (induction t rule: fullTree.induct) auto

lemma pathTo_leaf: "isLeaf t \<Longrightarrow> pathTo t c = []"
  by (cases t) auto

lemma pathTo_prefix_free:
  "fullTree t \<Longrightarrow> a \<in> labels t \<Longrightarrow> b \<in> labels t \<Longrightarrow> a \<noteq> b \<Longrightarrow>
     \<not> prefix (pathTo t a) (pathTo t b)"
  by (induction t rule: fullTree.induct) auto

subsection \<open>Encoding and decoding\<close>

lemma encodeLoop_eq:
  "encodeLoop codes text acc =
     acc @ concat (map (\<lambda>c. case codes c of None \<Rightarrow> [] | Some code \<Rightarrow> code) text)"
  by (induction "text" arbitrary: acc) auto

lemma decode_leaf_root:
  "isLeaf root \<Longrightarrow> bits \<noteq> [] \<Longrightarrow> decodeLoop root root bits out = Inl NullDereference"
  by (cases bits) (auto simp: isLeaf_def)

lemma decode_path:
  "fullTree t \<Longrightarrow> \<not> isLeaf t \<Longrightarrow> c \<in> labels t \<Longrightarrow>
     decodeLoop root t (pathTo t c @ bits) out = decodeLoop root root bits (out @ [c])"
proof (induction t rule: fullTree.induct)
  case (2 d f l r)
  show ?case
  proof (cases "c \<in> labels r")
    case True
    then show ?thesis using "2.IH"(2) "2.prems"(1)
      by (cases r rule: fullTree.cases) auto
  next
    case False
    then have "c \<in> labels l" using "2.prems"(3) by simp
    then show ?thesis using False "2.IH"(1) "2.prems"(1)
      by (cases l rule: fullTree.cases) auto
  qed
qed simp_all

lemma decode_proper_prefix:
  "fullTree t \<Longrightarrow> \<not> isLeaf t \<Longrightarrow> c \<in> labels t \<Longrightarrow>
     decodeLoop root t (butlast (pathTo t c)) out = Inr out"
proof (induction t rule: fullTree.induct)
  case (2 d f l r)
  show ?case
  proof (cases "c \<in> labels r")
    case True
    then show ?thesis using "2.IH"(2) "2.prems"(1) pathTo_nonempty[of r c]
      by (cases r rule: fullTree.cases) auto
  next
    case False
    then have "c \<in> labels l" using "2.prems"(3) by simp
    then show ?thesis using False "2.IH"(1) "2.prems"(1) pathTo_nonempty[of l c]
      by (cases l rule: fullTree.cases) auto
  qed
qed simp_all

lemma nodes_kids:
  "n \<in> nodes t \<Longrightarrow> left n = Some m \<or> right n = Some m \<Longrightarrow> m \<in> nodes t"
  by (rule nodes_trans[of n]) (cases n, auto)+

lemma decode_total:
  "fullTree root \<Longrightarrow> \<not> isLeaf root \<Longrightarrow> cur \<in> nodes root \<Longrightarrow> \<not> isLeaf cur \<Longrightarrow>
     \<exists>out'. decodeLoop root cur bits out = Inr out'"
proof (induction bits arbitrary: cur out)
  case Nil
  show ?case by simp
next
  case (Cons b bits)
  have "fullTree cur" using Cons.prems(1,3) by (rule fullTree_nodes)
  then obtain l r where lr: "left cur = Some l" "right cur = Some r"
    using fullTree_shape Cons.prems(4) by blast
  then have "l \<in> nodes root" "r \<in> nodes root" using nodes_kids[OF Cons.prems(3)] by auto
  then show ?case using lr Cons.IH Cons.prems(1,2) by auto
qed

subsection \<open>Facts about the tree of a text\<close>

lemma mainTreeE:
  assumes "mainTree text root"
  obtains ps where "text \<noteq> []" "iterates ps (countFreq text Map.empty)"
    "buildLoop (initQueue ps) root"
  using assms by (auto elim: mainTree.cases)

lemma mainTree_full: "mainTree text root \<Longrightarrow> fullTree root"
  by (auto elim!: mainTreeE intro: buildLoop_fullTree)

lemma mainTree_leaves:
  assumes "mainTree text root"
  shows "distinct (map fst (leaves root))"
    and "(c, n) \<in> set (leaves root) \<longleftrightarrow> c \<in> set text \<and> n = int (count_list text c)"
proof -
  from assms obtain ps where ps: "iterates ps (countFreq text Map.empty)"
    and b: "buildLoop (initQueue ps) root" by (rule mainTreeE)
  have m: "mset (leaves root) = mset ps" using b by (rule tree_leaves)
  have "mset (map fst (leaves root)) = mset (map fst ps)" using m by (metis mset_map)
  then show "distinct (map fst (leaves root))"
    using ps by (metis iterates_def mset_eq_imp_distinct_iff)
  have "set (leaves root) = set ps" using m by (rule mset_eq_setD)
  then show "(c, n) \<in> set (leaves root) \<longleftrightarrow> c \<in> set text \<and> n = int (count_list text c)"
    using iterates_mem[OF ps] by simp
qed

lemma mainTree_labels:
  assumes "mainTree text root"
  shows "labels root = set text"
proof (rule set_eqI)
  fix c
  have "c \<in> labels root \<longleftrightarrow> (\<exists>n. (c, n) \<in> set (leaves root))"
    by (force simp: labels_def)
  then show "c \<in> labels root \<longleftrightarrow> c \<in> set text"
    by (simp add: mainTree_leaves(2)[OF assms])
qed

lemma leaf_one_label: "isLeaf t \<Longrightarrow> labels t = {data t}"
  by (cases t) auto

lemma inner_two_leaves: "fullTree t \<Longrightarrow> \<not> isLeaf t \<Longrightarrow> 2 \<le> length (leaves t)"
proof (induction t rule: fullTree.induct)
  case (2 d f l r)
  have "leaves l \<noteq> []" "leaves r \<noteq> []"
    using labels_nonempty[of l] labels_nonempty[of r] "2.prems"(1) by (auto simp: labels_def)
  then have "1 \<le> length (leaves l)" "1 \<le> length (leaves r)"
    by (simp_all add: Suc_le_eq)
  then show ?case by simp
qed simp_all

lemma mainTree_leaf_iff:
  assumes "mainTree text root"
  shows "isLeaf root \<longleftrightarrow> card (set text) = 1"
proof
  assume "isLeaf root"
  then show "card (set text) = 1"
    using leaf_one_label[of root] mainTree_labels[OF assms] by simp
next
  assume c: "card (set text) = 1"
  show "isLeaf root"
  proof (rule ccontr)
    assume "\<not> isLeaf root"
    then have "2 \<le> length (map fst (leaves root))"
      using inner_two_leaves[OF mainTree_full[OF assms]] by simp
    also have "\<dots> = card (set (map fst (leaves root)))"
      using mainTree_leaves(1)[OF assms] by (metis distinct_card)
    also have "\<dots> = card (set text)"
      using mainTree_labels[OF assms] by (simp add: labels_def)
    finally show False using c by simp
  qed
qed

lemma mainTree_codes:
  assumes "mainTree text root"
  shows "generateCodes (Some root) [] Map.empty =
    (\<lambda>c. if c \<in> set text then Some (if isLeaf root then ''0'' else pathTo root c) else None)"
  by (auto simp: generateCodes_full[OF mainTree_full[OF assms]] mainTree_labels[OF assms]
      fun_eq_iff)

subsection \<open>Three texts and their trees\<close>

lemma example_aab: "mainTree ''aab'' (innerNode (leafNode CHR ''b'' 1) (leafNode CHR ''a'' 2))"
proof -
  have "buildTree (initQueue (entries ''aab'')) =
      Some (innerNode (leafNode CHR ''b'' 1) (leafNode CHR ''a'' 2))"
    by code_simp
  then show ?thesis using mainTree_exec[of "''aab''"] by auto
qed

lemma example_aaaabbc:
  "mainTree ''aaaabbc''
     (innerNode (innerNode (leafNode CHR ''c'' 1) (leafNode CHR ''b'' 2)) (leafNode CHR ''a'' 4))"
proof -
  have "buildTree (initQueue (entries ''aaaabbc'')) =
      Some (innerNode (innerNode (leafNode CHR ''c'' 1) (leafNode CHR ''b'' 2)) (leafNode CHR ''a'' 4))"
    by code_simp
  then show ?thesis using mainTree_exec[of "''aaaabbc''"] by auto
qed

lemma example_aaaa: "mainTree ''aaaa'' (leafNode CHR ''a'' 4)"
proof -
  have "buildTree (initQueue (entries ''aaaa'')) = Some (leafNode CHR ''a'' 4)"
    by code_simp
  then show ?thesis using mainTree_exec[of "''aaaa''"] by auto
qed

subsection \<open>Round trip with two or more distinct bytes\<close>

lemma mainTree_inner: "mainTree text root \<Longrightarrow> 2 \<le> card (set text) \<Longrightarrow> \<not> isLeaf root"
  by (simp add: mainTree_leaf_iff)

lemma mainTree_code_map:
  assumes "mainTree text root" "\<not> isLeaf root" "set syms \<subseteq> set text"
  shows "map (generateCodes (Some root) [] Map.empty) syms = map Some (map (pathTo root) syms)"
  using assms(2,3) by (auto simp: mainTree_codes[OF assms(1)])

lemma decode_concat:
  "fullTree root \<Longrightarrow> \<not> isLeaf root \<Longrightarrow> set syms \<subseteq> labels root \<Longrightarrow>
     decodeLoop root root (concat (map (pathTo root) syms) @ bits) out =
       decodeLoop root root bits (out @ syms)"
  by (induction syms arbitrary: out) (auto simp: decode_path)

lemma roundtrip_two_bytes:
  assumes "mainTree text root" "2 \<le> card (set text)"
  shows "decodeLoop root root (encodeLoop (generateCodes (Some root) [] Map.empty) text []) [] =
    Inr text"
proof -
  have nl: "\<not> isLeaf root" using assms by (rule mainTree_inner)
  have "encodeLoop (generateCodes (Some root) [] Map.empty) text [] =
      concat (map (pathTo root) text)"
    using nl by (simp add: encodeLoop_eq mainTree_codes[OF assms(1)] cong: map_cong)
  then show ?thesis
    using decode_concat[OF mainTree_full[OF assms(1)] nl, of "text" "[]" "[]"]
    by (simp add: mainTree_labels[OF assms(1)])
qed

subsection \<open>The invariant of the loop\<close>

lemma kids_leafNode [simp]: "kids (leafNode d f) = {}"
  by (simp add: leafNode_def)

lemma kids_innerNode [simp]: "kids (innerNode l r) = {l, r}"
  by (auto simp: innerNode_def)

lemma nodes_leafNode [simp]: "nodes (leafNode d f) = {leafNode d f}"
  by (simp add: leafNode_def)

lemma nodes_innerNode [simp]: "nodes (innerNode l r) = insert (innerNode l r) (nodes l \<union> nodes r)"
  by (simp add: innerNode_def)

lemma freq_innerNode [simp]: "freq (innerNode l r) = freq l + freq r"
  by (simp add: innerNode_def)

lemma freq_leafNode [simp]: "freq (leafNode d f) = f"
  by (simp add: leafNode_def)

lemma fullTree_kids:
  "fullTree n \<Longrightarrow> c \<in> kids n \<Longrightarrow>
     \<exists>a b. kids n = {a, b} \<and> freq n = freq a + freq b"
  by (induction n rule: fullTree.induct) auto

lemma huffInv_init:
  assumes "\<forall>p \<in> set ps. 0 \<le> snd p"
  shows "huffInv (initQueue ps)"
proof -
  have "forestNodes (initQueue ps) = (\<lambda>p. leafNode (fst p) (snd p)) ` set ps"
    by (auto simp: forestNodes_def initQueue_def)
  then show ?thesis using assms by (auto simp: huffInv_def)
qed

lemma huffInv_step:
  assumes inv: "huffInv pq" and l: "pq_top pq l" and r: "pq_top (remove1 l pq) r"
  shows "huffInv (innerNode l r # remove1 r (remove1 l pq))"
proof -
  let ?N = "innerNode l r"
  let ?pq' = "?N # remove1 r (remove1 l pq)"
  have lin: "l \<in> set pq" using l by (rule pq_top_mem)
  have rin1: "r \<in> set (remove1 l pq)" using r by (rule pq_top_mem)
  have rin: "r \<in> set pq" using rin1 by (meson notin_set_remove1)
  have rest: "set (remove1 r (remove1 l pq)) \<subseteq> set (remove1 l pq)"
    "set (remove1 l pq) \<subseteq> set pq"
    by (rule set_remove1_subset)+
  have I0: "\<And>n. n \<in> forestNodes pq \<Longrightarrow> fullTree n \<and> 0 \<le> freq n"
    and I1: "\<And>n c u. n \<in> forestNodes pq \<Longrightarrow> c \<in> kids n \<Longrightarrow> u \<in> set pq \<Longrightarrow> freq c \<le> freq u"
    and I2: "\<And>n1 n2 x y. n1 \<in> forestNodes pq \<Longrightarrow> n2 \<in> forestNodes pq \<Longrightarrow> x \<in> kids n1 \<Longrightarrow>
        y \<in> kids n2 \<Longrightarrow> freq y < freq x \<Longrightarrow> n1 = n2 \<or> freq n2 < freq n1"
    using inv unfolding huffInv_def by blast+
  have lF: "nodes l \<subseteq> forestNodes pq" and rF: "nodes r \<subseteq> forestNodes pq"
    using lin rin by (auto simp: forestNodes_def)
  have "l \<in> forestNodes pq" "r \<in> forestNodes pq"
    using lF rF self_in_nodes by blast+
  then have l0: "0 \<le> freq l" and r0: "0 \<le> freq r" and lfull: "fullTree l" and rfull: "fullTree r"
    using I0[of l] I0[of r] by simp_all
  have lr: "freq l \<le> freq r" using l rin by (rule pq_top_le)
  have sub: "forestNodes ?pq' \<subseteq> insert ?N (forestNodes pq)"
    using lF rF rest by (auto simp: forestNodes_def)
  have qle: "freq l \<le> freq u \<and> freq r \<le> freq u" if "u \<in> set ?pq'" for u
  proof (cases "u = ?N")
    case True
    then show ?thesis using l0 r0 by simp
  next
    case False
    then have "u \<in> set (remove1 l pq)" "u \<in> set pq" using that rest by auto
    then show ?thesis using pq_top_le[OF l] pq_top_le[OF r] by blast
  qed
  have J0: "fullTree n \<and> 0 \<le> freq n" if "n \<in> forestNodes ?pq'" for n
    using that sub I0 l0 r0 lfull rfull by (cases "n = ?N") auto
  have J1: "freq c \<le> freq u" if "n \<in> forestNodes ?pq'" "c \<in> kids n" "u \<in> set ?pq'" for n c u
  proof (cases "n = ?N")
    case True
    then show ?thesis using that(2) qle[OF that(3)] by auto
  next
    case False
    then have n: "n \<in> forestNodes pq" using that(1) sub by auto
    have "freq c \<le> freq l" using I1[OF n that(2) lin] .
    then show ?thesis using qle[OF that(3)] by linarith
  qed
  have J2: "n1 = n2 \<or> freq n2 < freq n1"
    if h: "n1 \<in> forestNodes ?pq'" "n2 \<in> forestNodes ?pq'" "x \<in> kids n1" "y \<in> kids n2"
      "freq y < freq x" for n1 n2 x y
  proof (cases "n1 = ?N")
    case n1: True
    show ?thesis
    proof (cases "n2 = ?N")
      case True
      then show ?thesis using n1 by simp
    next
      case False
      then have n2: "n2 \<in> forestNodes pq" using h(2) sub by auto
      obtain a b where ab: "kids n2 = {a, b}" "freq n2 = freq a + freq b"
        using fullTree_kids[OF _ h(4)] I0[OF n2] by blast
      have "freq a \<le> freq l" "freq a \<le> freq r" "freq b \<le> freq l" "freq b \<le> freq r"
        using I1[OF n2 _ lin] I1[OF n2 _ rin] ab(1) by auto
      moreover have "x = l \<or> x = r" using h(3) n1 by simp
      moreover have "y = a \<or> y = b" using h(4) ab(1) by simp
      ultimately have "freq a + freq b < freq l + freq r" using h(5) by auto
      then show ?thesis using n1 ab(2) by simp
    qed
  next
    case False
    then have n1: "n1 \<in> forestNodes pq" using h(1) sub by auto
    show ?thesis
    proof (cases "n2 = ?N")
      case True
      then have "y = l \<or> y = r" using h(4) by simp
      moreover have "freq x \<le> freq l" "freq x \<le> freq r"
        using I1[OF n1 h(3) lin] I1[OF n1 h(3) rin] by auto
      ultimately show ?thesis using h(5) by auto
    next
      case False
      then have "n2 \<in> forestNodes pq" using h(2) sub by auto
      then show ?thesis using I2[OF n1 _ h(3,4,5)] by simp
    qed
  qed
  show ?thesis unfolding huffInv_def using J0 J1 J2 by blast
qed

lemma buildLoop_huffInv: "buildLoop pq root \<Longrightarrow> huffInv pq \<Longrightarrow> huffInv [root]"
proof (induction rule: buildLoop.induct)
  case (exit pq root)
  then show ?case using buildLoop_exit_singleton by blast
next
  case (iter pq l r root)
  then show ?case using huffInv_step by blast
qed

subsection \<open>Depth and weight in the final tree\<close>

lemma kids_in_nodes: "c \<in> kids t \<Longrightarrow> c \<in> nodes t"
  by (cases t) (auto split: option.splits)

lemma level_nodes: "x \<in> level k t \<Longrightarrow> x \<in> nodes t"
proof (induction k arbitrary: t)
  case 0
  then show ?case by simp
next
  case (Suc k)
  then obtain c where "c \<in> kids t" "x \<in> level k c" by auto
  then show ?case using Suc.IH kids_in_nodes nodes_trans by blast
qed

lemma level_Suc_parent: "x \<in> level (Suc k) t \<Longrightarrow> \<exists>n \<in> level k t. x \<in> kids n"
proof (induction k arbitrary: t)
  case 0
  then show ?case by simp
next
  case (Suc k)
  then obtain c where c: "c \<in> kids t" "x \<in> level (Suc k) c" by auto
  then obtain n where "n \<in> level k c" "x \<in> kids n" using Suc.IH by blast
  then show ?case using c(1) by auto
qed

lemma root_max:
  "fullTree t \<Longrightarrow> \<forall>n \<in> nodes t. 0 \<le> freq n \<Longrightarrow> n \<in> nodes t \<Longrightarrow> freq n \<le> freq t"
proof (induction t rule: fullTree.induct)
  case (2 d f l r)
  have "0 \<le> freq l" "0 \<le> freq r" using "2.prems"(2) by auto
  moreover have "n \<in> nodes l \<Longrightarrow> freq n \<le> freq l" "n \<in> nodes r \<Longrightarrow> freq n \<le> freq r"
    using "2.IH" "2.prems"(1,2) by auto
  ultimately show ?case using "2.prems"(1,3) by auto
qed simp_all

lemma nodes_size: "n \<in> nodes t \<Longrightarrow> size n \<le> size t"
  by (induction t rule: nodes.induct) (fastforce split: option.splits)

lemma labels_child: "c \<in> kids t \<Longrightarrow> labels c \<subseteq> labels t"
  by (cases t) (auto simp: labels_def split: option.splits)

lemma nodes_labels: "n \<in> nodes t \<Longrightarrow> labels n \<subseteq> labels t"
proof (induction t rule: nodes.induct)
  case (1 d f l r)
  let ?t = "Node d f l r"
  from "1.prems" consider "n = ?t" | a where "l = Some a" "n \<in> nodes a"
    | b where "r = Some b" "n \<in> nodes b"
    by (auto split: option.splits)
  then show ?case
  proof cases
    case 1
    then show ?thesis by simp
  next
    case 2
    then have "labels n \<subseteq> labels a" using "1.IH"(1) by simp
    moreover have "labels a \<subseteq> labels ?t" using 2(1) by (intro labels_child) simp
    ultimately show ?thesis by blast
  next
    case 3
    then have "labels n \<subseteq> labels b" using "1.IH"(2) by simp
    moreover have "labels b \<subseteq> labels ?t" using 3(1) by (intro labels_child) simp
    ultimately show ?thesis by blast
  qed
qed

lemma level_unique:
  "fullTree t \<Longrightarrow> distinct (map fst (leaves t)) \<Longrightarrow> n \<in> level d t \<Longrightarrow> n \<in> level e t \<Longrightarrow>
     d = e"
proof (induction t arbitrary: d e rule: fullTree.induct)
  case (1 c f)
  then show ?case by (cases d; cases e) auto
next
  case (2 c f l r)
  let ?t = "Node c f (Some l) (Some r)"
  have full: "fullTree l" "fullTree r" using "2.prems"(1) by auto
  have dl: "distinct (map fst (leaves l))" and dr: "distinct (map fst (leaves r))"
    and disj: "labels l \<inter> labels r = {}"
    using "2.prems"(2) by (auto simp: labels_def)
  have proper: False if "?t \<in> level k l \<or> ?t \<in> level k r" for k
    using that nodes_size[OF level_nodes, of ?t k l] nodes_size[OF level_nodes, of ?t k r] by auto
  have cross: False if "n \<in> level j l" "n \<in> level k r" for j k
  proof -
    have "labels n \<subseteq> labels l" "labels n \<subseteq> labels r"
      using that level_nodes nodes_labels by blast+
    moreover have "labels n \<noteq> {}"
      using labels_nonempty fullTree_nodes[OF full(1) level_nodes[OF that(1)]] by blast
    ultimately show False using disj by blast
  qed
  show ?case
  proof (cases d)
    case 0
    then show ?thesis using "2.prems"(3,4) proper by (cases e) auto
  next
    case d: (Suc d')
    show ?thesis
    proof (cases e)
      case 0
      then show ?thesis using "2.prems"(3,4) proper d by auto
    next
      case e: (Suc e')
      have "n \<in> level d' l \<or> n \<in> level d' r" "n \<in> level e' l \<or> n \<in> level e' r"
        using "2.prems"(3,4) d e by auto
      then have "d' = e'"
        using "2.IH"(1)[OF full(1) dl] "2.IH"(2)[OF full(2) dr] cross by blast
      then show ?thesis using d e by simp
    qed
  qed
qed simp_all

lemma level_monotone:
  assumes inv: "huffInv [root]" and dist: "distinct (map fst (leaves root))"
  shows "x \<in> level d root \<Longrightarrow> y \<in> level e root \<Longrightarrow> freq y < freq x \<Longrightarrow> d \<le> e"
proof (induction d arbitrary: x y e)
  case 0
  then show ?case by simp
next
  case (Suc d)
  have F: "forestNodes [root] = nodes root" by (simp add: forestNodes_def)
  have full: "fullTree root" and nn: "\<forall>n \<in> nodes root. 0 \<le> freq n"
    using inv by (auto simp: huffInv_def F)
  obtain n1 where n1: "n1 \<in> level d root" "x \<in> kids n1"
    using level_Suc_parent[OF Suc.prems(1)] by blast
  show ?case
  proof (cases e)
    case 0
    then have "y = root" using Suc.prems(2) by simp
    then show ?thesis
      using root_max[OF full nn level_nodes[OF Suc.prems(1)]] Suc.prems(3) by simp
  next
    case e: (Suc e')
    obtain n2 where n2: "n2 \<in> level e' root" "y \<in> kids n2"
      using level_Suc_parent Suc.prems(2) e by blast
    have "n1 \<in> nodes root" "n2 \<in> nodes root" using n1(1) n2(1) level_nodes by blast+
    then have "n1 = n2 \<or> freq n2 < freq n1"
      using inv n1(2) n2(2) Suc.prems(3) unfolding huffInv_def F by blast
    then show ?thesis
    proof
      assume "n1 = n2"
      then have "d = e'" using level_unique[OF full dist n1(1)] n2(1) by simp
      then show ?thesis using e by simp
    next
      assume "freq n2 < freq n1"
      then have "d \<le> e'" using Suc.IH[OF n1(1) n2(1)] by simp
      then show ?thesis using e by simp
    qed
  qed
qed

lemma leaf_level:
  "fullTree t \<Longrightarrow> distinct (map fst (leaves t)) \<Longrightarrow> (c, f) \<in> set (leaves t) \<Longrightarrow>
     Node c f None None \<in> level (length (pathTo t c)) t"
proof (induction t rule: fullTree.induct)
  case (2 d g l r)
  have disj: "labels l \<inter> labels r = {}"
    and dl: "distinct (map fst (leaves l))" and dr: "distinct (map fst (leaves r))"
    using "2.prems"(2) by (auto simp: labels_def)
  show ?case
  proof (cases "c \<in> labels r")
    case True
    then have "c \<notin> labels l" using disj by auto
    then have "(c, f) \<in> set (leaves r)" using "2.prems"(3) by (force simp: labels_def)
    then show ?thesis using True "2.IH"(2) dr "2.prems"(1) by auto
  next
    case False
    then have "(c, f) \<in> set (leaves l)" using "2.prems"(3) by (force simp: labels_def)
    then show ?thesis using False "2.IH"(1) dl "2.prems"(1) by auto
  qed
qed simp_all

lemma mainTree_huffInv:
  assumes "mainTree text root"
  shows "huffInv [root]"
proof -
  from assms obtain ps where ps: "iterates ps (countFreq text Map.empty)"
    and b: "buildLoop (initQueue ps) root" by (rule mainTreeE)
  have "\<forall>p \<in> set ps. 0 \<le> snd p" using iterates_mem[OF ps] by auto
  then show ?thesis using b buildLoop_huffInv huffInv_init by blast
qed

subsection \<open>Weights stay within the length of the text\<close>

lemma fullTree_freq_sum: "fullTree t \<Longrightarrow> freq t = sum_list (map snd (leaves t))"
  by (induction t rule: fullTree.induct) auto

lemma iterates_sum:
  assumes "iterates ps (countFreq text Map.empty)"
  shows "sum_list (map snd ps) = int (length text)"
proof -
  have d: "distinct (map fst ps)" using assms by (simp add: iterates_def)
  have keys: "set (map fst ps) = set text"
    using iterates_mem[OF assms] by (force simp: image_iff)
  have "map snd ps = map (\<lambda>c. int (count_list text c)) (map fst ps)"
    using iterates_mem[OF assms] by (auto simp: map_eq_conv)
  then have "sum_list (map snd ps) = (\<Sum>c \<in> set (map fst ps). int (count_list text c))"
    by (simp only: sum_list_distinct_conv_sum_set[OF d])
  also have "\<dots> = int (\<Sum>c \<in> set text. count_list text c)"
    by (simp only: keys of_nat_sum)
  also have "\<dots> = int (length text)"
    by (simp add: sum_count_set)
  finally show ?thesis .
qed

lemma tree_freq_bounds:
  assumes "\<forall>p \<in> set ps. 0 \<le> snd p" "buildLoop (initQueue ps) root" "n \<in> nodes root"
  shows "0 \<le> freq n \<and> freq n \<le> sum_list (map snd ps)"
proof -
  have inv: "huffInv [root]"
    using assms(1,2) buildLoop_huffInv huffInv_init by blast
  then have nn: "\<forall>n \<in> nodes root. 0 \<le> freq n" and full: "fullTree root"
    by (auto simp: huffInv_def forestNodes_def)
  have "mset (map snd (leaves root)) = mset (map snd ps)"
    using tree_leaves[OF assms(2)] by (metis mset_map)
  then have "sum_list (map snd (leaves root)) = sum_list (map snd ps)"
    by (metis sum_mset_sum_list)
  then have "freq root = sum_list (map snd ps)"
    using fullTree_freq_sum[OF full] by simp
  then show ?thesis using root_max[OF full nn assms(3)] nn assms(3) by auto
qed

lemma nodes_freq_le_length:
  assumes "mainTree text root" "n \<in> nodes root"
  shows "0 \<le> freq n \<and> freq n \<le> int (length text)"
proof -
  from assms(1) obtain ps where ps: "iterates ps (countFreq text Map.empty)"
    and b: "buildLoop (initQueue ps) root" by (rule mainTreeE)
  have "\<forall>p \<in> set ps. 0 \<le> snd p" using iterates_mem[OF ps] by auto
  then show ?thesis using tree_freq_bounds[OF _ b assms(2)] iterates_sum[OF ps] by simp
qed

subsection \<open>The length of the encoded text does not depend on the run\<close>

lemma cost_leafNode [simp]: "cost (leafNode d f) = 0"
  by (simp add: leafNode_def)

lemma cost_innerNode [simp]: "cost (innerNode l r) = freq l + freq r + cost l + cost r"
  by (simp add: innerNode_def)

lemma mset_map_remove1:
  "x \<in> set xs \<Longrightarrow> mset (map f (remove1 x xs)) = mset (map f xs) - {#f x#}"
  by (induction xs) auto

lemma pq_top_freq_unique:
  assumes "pq_top pq1 n1" "pq_top pq2 n2" "mset (map freq pq1) = mset (map freq pq2)"
  shows "freq n1 = freq n2"
proof -
  have s: "freq ` set pq1 = freq ` set pq2"
    using assms(3) by (metis mset_eq_setD set_map)
  have "freq n1 \<in> freq ` set pq2" "freq n2 \<in> freq ` set pq1"
    using assms(1,2) s by (auto simp: pq_top_def)
  then have "freq n2 \<le> freq n1" "freq n1 \<le> freq n2"
    using pq_top_le[OF assms(2)] pq_top_le[OF assms(1)] by auto
  then show ?thesis by simp
qed

lemma buildLoop_cost:
  "buildLoop pq1 root1 \<Longrightarrow> buildLoop pq2 root2 \<Longrightarrow>
   mset (map freq pq1) = mset (map freq pq2) \<Longrightarrow>
     cost root1 - sum_list (map cost pq1) = cost root2 - sum_list (map cost pq2)"
proof (induction arbitrary: pq2 root2 rule: buildLoop.induct)
  case (exit pq root)
  have pq: "pq = [root]" using exit.hyps by (rule buildLoop_exit_singleton)
  have "length pq2 = length pq" using exit.prems(2) by (metis length_map size_mset)
  then have len: "\<not> 1 < length pq2" using pq by simp
  from exit.prems(1) have "pq2 = [root2]"
  proof (cases rule: buildLoop.cases)
    case exit
    then show ?thesis using buildLoop_exit_singleton by blast
  next
    case (iter l r)
    then show ?thesis using len by simp
  qed
  then show ?case using pq by simp
next
  case (iter pq l r root)
  have len: "1 < length pq2" using iter.prems(2) iter.hyps(1) by (metis length_map size_mset)
  from iter.prems(1) obtain l2 r2 where l2: "pq_top pq2 l2" and r2: "pq_top (remove1 l2 pq2) r2"
    and run: "buildLoop (innerNode l2 r2 # remove1 r2 (remove1 l2 pq2)) root2"
  proof (cases rule: buildLoop.cases)
    case exit
    then show ?thesis using len by simp
  next
    case (iter l r)
    then show ?thesis using that by blast
  qed
  have lin: "l \<in> set pq" and rin: "r \<in> set (remove1 l pq)"
    and l2in: "l2 \<in> set pq2" and r2in: "r2 \<in> set (remove1 l2 pq2)"
    using iter.hyps(2,3) l2 r2 by (auto dest: pq_top_mem)
  have fl: "freq l = freq l2" using iter.hyps(2) l2 iter.prems(2) by (rule pq_top_freq_unique)
  have "mset (map freq (remove1 l pq)) = mset (map freq pq) - {#freq l#}"
    using lin by (rule mset_map_remove1)
  also have "\<dots> = mset (map freq pq2) - {#freq l2#}"
    by (simp only: iter.prems(2) fl)
  also have "\<dots> = mset (map freq (remove1 l2 pq2))"
    using l2in by (rule mset_map_remove1[symmetric])
  finally have m1: "mset (map freq (remove1 l pq)) = mset (map freq (remove1 l2 pq2))" .
  have fr: "freq r = freq r2" using iter.hyps(3) r2 m1 by (rule pq_top_freq_unique)
  have "mset (map freq (remove1 r (remove1 l pq))) = mset (map freq (remove1 l pq)) - {#freq r#}"
    using rin by (rule mset_map_remove1)
  also have "\<dots> = mset (map freq (remove1 l2 pq2)) - {#freq r2#}"
    by (simp only: m1 fr)
  also have "\<dots> = mset (map freq (remove1 r2 (remove1 l2 pq2)))"
    using r2in by (rule mset_map_remove1[symmetric])
  finally have m2: "mset (map freq (remove1 r (remove1 l pq))) =
      mset (map freq (remove1 r2 (remove1 l2 pq2)))" .
  have "mset (map freq (innerNode l r # remove1 r (remove1 l pq))) =
      mset (map freq (innerNode l2 r2 # remove1 r2 (remove1 l2 pq2)))"
    using m2 fl fr by (simp only: list.map mset.simps freq_innerNode)
  from iter.IH[OF run this]
  have "cost root - (cost (innerNode l r) + sum_list (map cost (remove1 r (remove1 l pq)))) =
      cost root2 - (cost (innerNode l2 r2) + sum_list (map cost (remove1 r2 (remove1 l2 pq2))))"
    by simp
  moreover have "sum_list (map cost pq) = cost l + (cost r + sum_list (map cost (remove1 r (remove1 l pq))))"
    using sum_list_map_remove1[OF lin, of cost] sum_list_map_remove1[OF rin, of cost] by simp
  moreover have "sum_list (map cost pq2) =
      cost l2 + (cost r2 + sum_list (map cost (remove1 r2 (remove1 l2 pq2))))"
    using sum_list_map_remove1[OF l2in, of cost] sum_list_map_remove1[OF r2in, of cost] by simp
  ultimately show ?case using fl fr by simp
qed

lemma sum_list_cong: "(\<And>x. x \<in> set xs \<Longrightarrow> f x = g x) \<Longrightarrow> sum_list (map f xs) = sum_list (map g xs)"
  by (induction xs) auto

lemma cost_weighted:
  "fullTree t \<Longrightarrow> distinct (map fst (leaves t)) \<Longrightarrow>
     cost t = (\<Sum>p\<leftarrow>leaves t. snd p * int (length (pathTo t (fst p))))"
proof (induction t rule: fullTree.induct)
  case (2 d f l r)
  let ?t = "Node d f (Some l) (Some r)"
  have full: "fullTree l" "fullTree r" and f: "f = freq l + freq r" using "2.prems"(1) by auto
  have dl: "distinct (map fst (leaves l))" and dr: "distinct (map fst (leaves r))"
    and disj: "labels l \<inter> labels r = {}"
    using "2.prems"(2) by (auto simp: labels_def)
  have L: "(\<Sum>p\<leftarrow>leaves l. snd p * int (length (pathTo ?t (fst p)))) =
      (\<Sum>p\<leftarrow>leaves l. snd p * int (length (pathTo l (fst p))) + snd p)"
  proof (rule sum_list_cong)
    fix p assume "p \<in> set (leaves l)"
    then have "fst p \<notin> labels r" using disj by (auto simp: labels_def)
    then show "snd p * int (length (pathTo ?t (fst p))) =
        snd p * int (length (pathTo l (fst p))) + snd p"
      by (simp add: algebra_simps)
  qed
  have R: "(\<Sum>p\<leftarrow>leaves r. snd p * int (length (pathTo ?t (fst p)))) =
      (\<Sum>p\<leftarrow>leaves r. snd p * int (length (pathTo r (fst p))) + snd p)"
  proof (rule sum_list_cong)
    fix p assume "p \<in> set (leaves r)"
    then have "fst p \<in> labels r" by (auto simp: labels_def)
    then show "snd p * int (length (pathTo ?t (fst p))) =
        snd p * int (length (pathTo r (fst p))) + snd p"
      by (simp add: algebra_simps)
  qed
  have "(\<Sum>p\<leftarrow>leaves ?t. snd p * int (length (pathTo ?t (fst p)))) =
      (cost l + freq l) + (cost r + freq r)"
    using L R "2.IH"(1)[OF full(1) dl] "2.IH"(2)[OF full(2) dr]
      fullTree_freq_sum[OF full(1)] fullTree_freq_sum[OF full(2)]
    by (simp add: sum_list_addf)
  then show ?case using f by simp
qed simp_all

lemma encoded_length_inner:
  assumes m: "mainTree text root" and nl: "\<not> isLeaf root"
  shows "int (length (encodeLoop (generateCodes (Some root) [] Map.empty) text [])) = cost root"
proof -
  let ?g = "\<lambda>c. length (pathTo root c)"
  have enc: "encodeLoop (generateCodes (Some root) [] Map.empty) text [] =
      concat (map (pathTo root) text)"
    using nl by (simp add: encodeLoop_eq mainTree_codes[OF m] cong: map_cong)
  have "length (concat (map (pathTo root) text)) = sum_list (map ?g text)"
    by (simp add: length_concat comp_def)
  also have "\<dots> = (\<Sum>c \<in> set text. count_list text c * ?g c)"
    by (rule sum_list_map_eq_sum_count)
  finally have len: "int (length (encodeLoop (generateCodes (Some root) [] Map.empty) text [])) =
      (\<Sum>c \<in> set text. int (count_list text c) * int (?g c))"
    by (simp add: enc)
  have d: "distinct (map fst (leaves root))" using m by (rule mainTree_leaves(1))
  have "cost root = (\<Sum>p\<leftarrow>leaves root. snd p * int (?g (fst p)))"
    using mainTree_full[OF m] d by (rule cost_weighted)
  also have "\<dots> = (\<Sum>p\<leftarrow>leaves root. int (count_list text (fst p)) * int (?g (fst p)))"
  proof (rule sum_list_cong)
    fix p assume "p \<in> set (leaves root)"
    then have "snd p = int (count_list text (fst p))"
      using mainTree_leaves(2)[OF m, of "fst p" "snd p"] by simp
    then show "snd p * int (?g (fst p)) = int (count_list text (fst p)) * int (?g (fst p))"
      by simp
  qed
  also have "\<dots> = sum_list (map (\<lambda>c. int (count_list text c) * int (?g c)) (map fst (leaves root)))"
    by (simp add: comp_def)
  also have "\<dots> = (\<Sum>c \<in> set (map fst (leaves root)). int (count_list text c) * int (?g c))"
    using d by (rule sum_list_distinct_conv_sum_set)
  also have "set (map fst (leaves root)) = set text"
    using mainTree_labels[OF m] by (simp add: labels_def)
  finally show ?thesis using len by simp
qed

lemma encoded_length_leaf:
  assumes m: "mainTree text root" and l: "isLeaf root"
  shows "length (encodeLoop (generateCodes (Some root) [] Map.empty) text []) = length text"
proof -
  have "encodeLoop (generateCodes (Some root) [] Map.empty) text [] =
      concat (map (\<lambda>c. ''0'') text)"
    using l by (simp add: encodeLoop_eq mainTree_codes[OF m] cong: map_cong)
  then show ?thesis by (simp add: length_concat comp_def)
qed

lemma iterates_mset:
  assumes "iterates ps1 m" "iterates ps2 m"
  shows "mset ps1 = mset ps2"
proof -
  have k: "p \<in> set ps \<longleftrightarrow> m (fst p) = Some (snd p)" if "iterates ps m"
    for ps and p :: "char \<times> int"
    using that map_of_eq_Some_iff[of ps "fst p" "snd p"] by (auto simp: iterates_def)
  have d: "distinct ps1" "distinct ps2"
    using assms by (auto simp: iterates_def distinct_map)
  have "set ps1 = set ps2"
    using k[OF assms(1)] k[OF assms(2)] by blast
  then show ?thesis using d by (simp add: set_eq_iff_mset_eq_distinct)
qed

lemma countFreq_empty:
  "countFreq text Map.empty c = (if c \<in> set text then Some (int (count_list text c)) else None)"
  by (simp add: countFreq_eq)

lemma same_map_same_text_facts:
  assumes "countFreq text1 Map.empty = countFreq text2 Map.empty"
  shows "set text1 = set text2" and "length text1 = length text2"
proof -
  have c: "(if c \<in> set text1 then Some (int (count_list text1 c)) else None) =
      (if c \<in> set text2 then Some (int (count_list text2 c)) else None)" for c
    using fun_cong[OF assms, of c] by (simp only: countFreq_empty)
  show s: "set text1 = set text2"
  proof (rule set_eqI)
    fix x
    show "x \<in> set text1 \<longleftrightarrow> x \<in> set text2"
      using c[of x] by (auto split: if_splits)
  qed
  have "count_list text1 c = count_list text2 c" for c
    using c[of c] s by (cases "c \<in> set text2") (auto simp: count_list_0_iff)
  then have "sum (count_list text1) (set text1) = sum (count_list text2) (set text2)"
    using s by simp
  then show "length text1 = length text2"
    by (simp add: sum_count_set)
qed

lemma mainTree_cost:
  assumes "mainTree text1 root1" "mainTree text2 root2"
    and "countFreq text1 Map.empty = countFreq text2 Map.empty"
  shows "cost root1 = cost root2"
proof -
  from assms(1) obtain ps1 where ps1: "iterates ps1 (countFreq text1 Map.empty)"
    and b1: "buildLoop (initQueue ps1) root1" by (rule mainTreeE)
  from assms(2) obtain ps2 where ps2: "iterates ps2 (countFreq text2 Map.empty)"
    and b2: "buildLoop (initQueue ps2) root2" by (rule mainTreeE)
  have ps2': "iterates ps2 (countFreq text1 Map.empty)" using ps2 by (simp only: assms(3))
  have "mset ps1 = mset ps2" using ps1 ps2' by (rule iterates_mset)
  then have sn: "mset (map snd ps1) = mset (map snd ps2)" by (simp only: mset_map)
  have fq: "map freq (initQueue ps) = map snd ps" for ps
    by (simp add: initQueue_def comp_def)
  have "mset (map freq (initQueue ps1)) = mset (map freq (initQueue ps2))"
    by (simp only: fq sn)
  from buildLoop_cost[OF b1 b2 this] have
    "cost root1 - sum_list (map cost (initQueue ps1)) = cost root2 - sum_list (map cost (initQueue ps2))" .
  moreover have "sum_list (map cost (initQueue ps)) = 0" for ps
    by (induction ps) (simp_all add: initQueue_def)
  ultimately show ?thesis by simp
qed

lemma example_abccdd:
  "mainTree ''abccdd''
     (innerNode (leafNode CHR ''d'' 2)
        (innerNode (innerNode (leafNode CHR ''a'' 1) (leafNode CHR ''b'' 1)) (leafNode CHR ''c'' 2)))"
proof -
  have "buildTree (initQueue (entries ''abccdd'')) =
      Some (innerNode (leafNode CHR ''d'' 2)
        (innerNode (innerNode (leafNode CHR ''a'' 1) (leafNode CHR ''b'' 1)) (leafNode CHR ''c'' 2)))"
    by code_simp
  then show ?thesis using mainTree_exec[of "''abccdd''"] by auto
qed

lemma example_abccdd_balanced:
  "mainTree ''abccdd''
     (innerNode (innerNode (leafNode CHR ''a'' 1) (leafNode CHR ''b'' 1))
        (innerNode (leafNode CHR ''c'' 2) (leafNode CHR ''d'' 2)))"
proof -
  let ?A = "leafNode CHR ''a'' 1" and ?B = "leafNode CHR ''b'' 1"
  let ?C = "leafNode CHR ''c'' 2" and ?D = "leafNode CHR ''d'' 2"
  let ?AB = "innerNode ?A ?B" and ?CD = "innerNode ?C ?D"
  let ?T = "innerNode ?AB ?CD"
  note defs = pq_top_def Compare_def innerNode_def leafNode_def
  have s4: "buildLoop [?T] ?T"
    by (rule buildLoop.exit) (simp_all add: defs)
  have s3: "buildLoop [?CD, ?AB] ?T"
  proof (rule buildLoop.iter[where l = ?AB and r = ?CD])
    show "buildLoop (innerNode ?AB ?CD # remove1 ?CD (remove1 ?AB [?CD, ?AB])) ?T"
      using s4 by (simp add: defs)
  qed (simp_all add: defs)
  have s2: "buildLoop [?AB, ?C, ?D] ?T"
  proof (rule buildLoop.iter[where l = ?C and r = ?D])
    show "buildLoop (innerNode ?C ?D # remove1 ?D (remove1 ?C [?AB, ?C, ?D])) ?T"
      using s3 by (simp add: defs)
  qed (simp_all add: defs)
  have s1: "buildLoop [?A, ?B, ?C, ?D] ?T"
  proof (rule buildLoop.iter[where l = ?A and r = ?B])
    show "buildLoop (innerNode ?A ?B # remove1 ?B (remove1 ?A [?A, ?B, ?C, ?D])) ?T"
      using s2 by (simp add: defs)
  qed (simp_all add: defs)
  have "initQueue (entries ''abccdd'') = [?A, ?B, ?C, ?D]"
    by (simp add: initQueue_def entries_def)
  then have "buildLoop (initQueue (entries ''abccdd'')) ?T" using s1 by simp
  then show ?thesis using iterates_entries by (auto intro: mainTree.intros)
qed

subsection \<open>Totality\<close>

lemma mainTree_total: "text \<noteq> [] \<Longrightarrow> \<exists>root. mainTree text root"
  using mainTree_exec by blast

lemma codes_dom:
  "mainTree text root \<Longrightarrow> dom (generateCodes (Some root) [] Map.empty) = set text"
  by (auto simp: mainTree_codes dom_def)

section \<open>The claims\<close>

text \<open>
  C8. Every tree the tree-build loop returns for a non-empty frequency mapping, with
  frequencies that are not negative and add up to less than \<open>2^31\<close> (so that no sum leaves the
  source's \<^verbatim>\<open>int\<close>), is a full binary tree: each of its nodes has a frequency in that range,
  and either has no child (a leaf), or has both children and a frequency equal to the sum of
  theirs; no node has exactly one child.
\<close>

theorem tree_is_full:
  "\<forall>p \<in> set ps. 0 \<le> snd p \<Longrightarrow> sum_list (map snd ps) < 2 ^ 31 \<Longrightarrow>
   buildLoop (initQueue ps) root \<Longrightarrow> n \<in> nodes root \<Longrightarrow>
     (0 \<le> freq n \<and> freq n < 2 ^ 31) \<and>
     ((left n = None \<and> right n = None) \<or>
      (\<exists>l r. left n = Some l \<and> right n = Some r \<and> freq n = freq l + freq r))"
proof -
  assume nn: "\<forall>p \<in> set ps. 0 \<le> snd p" and sm: "sum_list (map snd ps) < 2 ^ 31"
    and b: "buildLoop (initQueue ps) root" and n: "n \<in> nodes root"
  have "0 \<le> freq n \<and> freq n < 2 ^ 31"
    using tree_freq_bounds[OF nn b n] sm by simp
  moreover have "(left n = None \<and> right n = None) \<or>
      (\<exists>l r. left n = Some l \<and> right n = Some r \<and> freq n = freq l + freq r)"
    using fullTree_shape[OF fullTree_nodes[OF buildLoop_fullTree[OF b] n]] by (auto simp: isLeaf_def)
  ultimately show ?thesis by blast
qed

theorem tree_is_full_witness:
  "list_all (\<lambda>p. 0 \<le> snd p) [(CHR ''c'', 1), (CHR ''b'', 2), (CHR ''a'', 4 :: int)] \<and>
   sum_list (map snd [(CHR ''c'', 1), (CHR ''b'', 2), (CHR ''a'', 4 :: int)]) < 2 ^ 31 \<and>
   buildLoop (initQueue [(CHR ''c'', 1), (CHR ''b'', 2), (CHR ''a'', 4)])
     (innerNode (innerNode (leafNode CHR ''c'' 1) (leafNode CHR ''b'' 2)) (leafNode CHR ''a'' 4)) \<and>
   innerNode (leafNode CHR ''c'' 1) (leafNode CHR ''b'' 2) \<in>
     nodes (innerNode (innerNode (leafNode CHR ''c'' 1) (leafNode CHR ''b'' 2)) (leafNode CHR ''a'' 4)) \<and>
   0 \<le> freq (innerNode (leafNode CHR ''c'' 1) (leafNode CHR ''b'' 2)) \<and>
   freq (innerNode (leafNode CHR ''c'' 1) (leafNode CHR ''b'' 2)) < 2 ^ 31 \<and>
   left (innerNode (leafNode CHR ''c'' 1) (leafNode CHR ''b'' 2)) = Some (leafNode CHR ''c'' 1) \<and>
   right (innerNode (leafNode CHR ''c'' 1) (leafNode CHR ''b'' 2)) = Some (leafNode CHR ''b'' 2) \<and>
   freq (innerNode (leafNode CHR ''c'' 1) (leafNode CHR ''b'' 2)) =
     freq (leafNode CHR ''c'' 1) + freq (leafNode CHR ''b'' 2)"
proof -
  let ?ps = "[(CHR ''c'', 1), (CHR ''b'', 2), (CHR ''a'', 4 :: int)]"
  let ?n = "innerNode (leafNode CHR ''c'' 1) (leafNode CHR ''b'' 2)"
  let ?t = "innerNode ?n (leafNode CHR ''a'' 4)"
  have nn: "\<forall>p \<in> set ?ps. 0 \<le> snd p" by simp
  have sm: "sum_list (map snd ?ps) < 2 ^ 31" by simp
  have "buildTree (initQueue ?ps) = Some ?t" by code_simp
  then have b: "buildLoop (initQueue ?ps) ?t"
    using buildTree_sound[of "initQueue ?ps"] by auto
  have n: "?n \<in> nodes ?t" by (simp add: innerNode_def leafNode_def)
  have "(0 \<le> freq ?n \<and> freq ?n < 2 ^ 31) \<and>
      left ?n = Some (leafNode CHR ''c'' 1) \<and> right ?n = Some (leafNode CHR ''b'' 2) \<and>
      freq ?n = freq (leafNode CHR ''c'' 1) + freq (leafNode CHR ''b'' 2)"
    using tree_is_full[OF nn sm b n] by (simp add: innerNode_def leafNode_def)
  then show ?thesis using nn sm b n by (simp add: list_all_iff)
qed

text \<open>
  C6. When the text has exactly one distinct byte, the root is a leaf holding that byte and
  \<open>generateCodes\<close> gives it the one-bit code \<^verbatim>\<open>"0"\<close>, and the table holds nothing else.
\<close>

theorem single_byte_code_is_zero:
  "mainTree text root \<Longrightarrow> set text = {c} \<Longrightarrow>
     isLeaf root \<and> data root = c \<and> generateCodes (Some root) [] Map.empty = [c \<mapsto> ''0'']"
proof -
  assume m: "mainTree text root" and s: "set text = {c}"
  have l: "isLeaf root" using s by (simp add: mainTree_leaf_iff[OF m])
  have d: "data root = c" using leaf_one_label[OF l] mainTree_labels[OF m] s by simp
  have "generateCodes (Some root) [] Map.empty = [c \<mapsto> ''0'']"
    using l s by (auto simp: mainTree_codes[OF m] fun_eq_iff)
  then show ?thesis using l d by simp
qed

theorem single_byte_code_is_zero_witness:
  "mainTree ''aaaa'' (leafNode CHR ''a'' 4) \<and> set ''aaaa'' = {CHR ''a''} \<and>
   isLeaf (leafNode CHR ''a'' 4) \<and> data (leafNode CHR ''a'' 4) = CHR ''a'' \<and>
   generateCodes (Some (leafNode CHR ''a'' 4)) [] Map.empty = [CHR ''a'' \<mapsto> ''0'']"
proof -
  have s: "set ''aaaa'' = {CHR ''a''}" by simp
  show ?thesis using example_aaaa s single_byte_code_is_zero[OF example_aaaa s] by simp
qed

text \<open>
  C7. The claim is that with a single-leaf tree every payload bit emits the byte once. The
  decode loop does not do that: at the first bit it moves \<open>currentNode\<close> to a child of the
  leaf root, which is null, and then calls \<^verbatim>\<open>isLeaf\<close> through it. Whatever the bits are,
  as long as there is one, decoding with a leaf root ends in the null dereference and emits
  nothing.
\<close>

theorem decode_single_leaf_null:
  "isLeaf root \<Longrightarrow> bits \<noteq> [] \<Longrightarrow> decodeLoop root root bits decodedText = Inl NullDereference"
  by (rule decode_leaf_root)

theorem decode_single_leaf_null_witness:
  "isLeaf (leafNode CHR ''a'' 4) \<and> ''0000'' \<noteq> [] \<and>
   decodeLoop (leafNode CHR ''a'' 4) (leafNode CHR ''a'' 4) ''0000'' [] = Inl NullDereference"
proof -
  have l: "isLeaf (leafNode CHR ''a'' 4)" by (simp add: leafNode_def)
  have n: "''0000'' \<noteq> []" by simp
  show ?thesis using l n decode_single_leaf_null[OF l n, of "[]"] by simp
qed

text \<open>
  C1. The round trip fails on a text with exactly one distinct byte: such a text is encoded
  to one \<^verbatim>\<open>'0'\<close> per byte, and decoding that with the leaf root ends in a null
  dereference at the first bit instead of giving the text back. (For a text with two distinct
  bytes or more the round trip holds: lemma \<open>roundtrip_two_bytes\<close>.)
\<close>

theorem roundtrip_single_byte_fails:
  "mainTree text root \<Longrightarrow> set text = {c} \<Longrightarrow>
     decodeLoop root root (encodeLoop (generateCodes (Some root) [] Map.empty) text []) [] =
       Inl NullDereference"
proof -
  assume m: "mainTree text root" and s: "set text = {c}"
  have l: "isLeaf root" using s by (simp add: mainTree_leaf_iff[OF m])
  have "text \<noteq> []" using s by auto
  then have "encodeLoop (generateCodes (Some root) [] Map.empty) text [] \<noteq> []"
    using l by (cases "text") (auto simp: encodeLoop_eq mainTree_codes[OF m])
  then show ?thesis using l by (rule decode_leaf_root[rotated])
qed

theorem roundtrip_single_byte_fails_witness:
  "mainTree ''aaaa'' (leafNode CHR ''a'' 4) \<and> set ''aaaa'' = {CHR ''a''} \<and>
   encodeLoop (generateCodes (Some (leafNode CHR ''a'' 4)) [] Map.empty) ''aaaa'' [] = ''0000'' \<and>
   decodeLoop (leafNode CHR ''a'' 4) (leafNode CHR ''a'' 4)
     (encodeLoop (generateCodes (Some (leafNode CHR ''a'' 4)) [] Map.empty) ''aaaa'' []) [] =
     Inl NullDereference"
proof -
  have s: "set ''aaaa'' = {CHR ''a''}" by simp
  have e: "encodeLoop (generateCodes (Some (leafNode CHR ''a'' 4)) [] Map.empty) ''aaaa'' [] = ''0000''"
    by (simp add: leafNode_def)
  show ?thesis using example_aaaa s e roundtrip_single_byte_fails[OF example_aaaa s] by simp
qed

text \<open>
  C10. With at least two distinct bytes in the text, decoding a concatenation \<open>concat cs\<close>
  of codes of the generated table (the codes \<open>cs\<close> of the bytes \<open>syms\<close>) never steps to a
  null child: after every number \<open>k\<close> of bits the loop is still running normally, and at the
  end it has emitted exactly \<open>syms\<close>.
\<close>

theorem decode_never_null:
  "mainTree text root \<Longrightarrow> 2 \<le> card (set text) \<Longrightarrow>
   map (generateCodes (Some root) [] Map.empty) syms = map Some cs \<Longrightarrow>
     decodeLoop root root (concat cs) [] = Inr syms \<and>
     (\<forall>k. \<exists>out. decodeLoop root root (take k (concat cs)) [] = Inr out)"
proof -
  assume m: "mainTree text root" and c: "2 \<le> card (set text)"
    and cs: "map (generateCodes (Some root) [] Map.empty) syms = map Some cs"
  have nl: "\<not> isLeaf root" using m c by (rule mainTree_inner)
  have full: "fullTree root" using m by (rule mainTree_full)
  have sub: "set syms \<subseteq> set text"
  proof
    fix x assume "x \<in> set syms"
    then have "generateCodes (Some root) [] Map.empty x \<in> set (map Some cs)"
      using cs by (metis image_eqI set_map)
    then show "x \<in> set text" by (auto simp: mainTree_codes[OF m] split: if_splits)
  qed
  have "map Some cs = map Some (map (pathTo root) syms)"
    using cs mainTree_code_map[OF m nl sub] by simp
  then have eq: "cs = map (pathTo root) syms"
    using inj_Some by (rule map_injective)
  have "decodeLoop root root (concat cs) [] = Inr syms"
    using decode_concat[OF full nl, of syms "[]" "[]"] sub
    by (simp add: eq mainTree_labels[OF m])
  moreover have "\<exists>out. decodeLoop root root (take k (concat cs)) [] = Inr out" for k
    using decode_total[OF full nl _ nl] by simp
  ultimately show ?thesis by blast
qed

theorem decode_never_null_witness:
  "mainTree ''aab'' (innerNode (leafNode CHR ''b'' 1) (leafNode CHR ''a'' 2)) \<and>
   2 \<le> card (set ''aab'') \<and>
   map (generateCodes (Some (innerNode (leafNode CHR ''b'' 1) (leafNode CHR ''a'' 2))) [] Map.empty)
     ''ba'' = map Some [''0'', ''1''] \<and>
   decodeLoop (innerNode (leafNode CHR ''b'' 1) (leafNode CHR ''a'' 2))
     (innerNode (leafNode CHR ''b'' 1) (leafNode CHR ''a'' 2)) (concat [''0'', ''1'']) [] = Inr ''ba''"
proof -
  let ?t = "innerNode (leafNode CHR ''b'' 1) (leafNode CHR ''a'' 2)"
  have c: "2 \<le> card (set ''aab'')" by simp
  have g: "map (generateCodes (Some ?t) [] Map.empty) ''ba'' = map Some [''0'', ''1'']"
    by (simp add: innerNode_def leafNode_def)
  show ?thesis using example_aab c g decode_never_null[OF example_aab c g] by blast
qed

text \<open>
  C5, as stated, fails: the decode loop reads no header and has no error to report. For the
  text \<^verbatim>\<open>"aab"\<close> the encoded text is \<^verbatim>\<open>"110"\<close>; with its last byte cut off it decodes,
  without any failure, to \<^verbatim>\<open>"aa"\<close>.
\<close>

theorem truncated_input_decodes_silently:
  "mainTree ''aab'' (innerNode (leafNode CHR ''b'' 1) (leafNode CHR ''a'' 2)) \<and>
   encodeLoop (generateCodes (Some (innerNode (leafNode CHR ''b'' 1) (leafNode CHR ''a'' 2))) []
     Map.empty) ''aab'' [] = ''110'' \<and>
   decodeLoop (innerNode (leafNode CHR ''b'' 1) (leafNode CHR ''a'' 2))
     (innerNode (leafNode CHR ''b'' 1) (leafNode CHR ''a'' 2)) (butlast ''110'') [] = Inr ''aa''"
  using example_aab by (simp add: innerNode_def leafNode_def)

text \<open>
  C5, amended. For a tree built from a text with at least two distinct bytes the decode loop
  returns a decoded text for every bit string \<open>bits\<close>, whatever it holds; bits at the end that
  stop before a leaf are dropped. In particular the encoded text with its last bit removed
  decodes to the text without its last byte.
\<close>

theorem decode_reports_no_error:
  "mainTree text root \<Longrightarrow> 2 \<le> card (set text) \<Longrightarrow>
     (\<exists>out. decodeLoop root root bits [] = Inr out) \<and>
     decodeLoop root root (butlast (encodeLoop (generateCodes (Some root) [] Map.empty) text [])) [] =
       Inr (butlast text)"
proof -
  assume m: "mainTree text root" and c: "2 \<le> card (set text)"
  have nl: "\<not> isLeaf root" using m c by (rule mainTree_inner)
  have full: "fullTree root" using m by (rule mainTree_full)
  have ne: "text \<noteq> []" using c by auto
  have lab: "labels root = set text" using m by (rule mainTree_labels)
  have enc: "encodeLoop (generateCodes (Some root) [] Map.empty) text [] =
      concat (map (pathTo root) text)"
    using nl by (simp add: encodeLoop_eq mainTree_codes[OF m] cong: map_cong)
  obtain xs x where tx: "text = xs @ [x]" using ne by (metis rev_exhaust)
  have xs: "set xs \<subseteq> labels root" and x: "x \<in> labels root"
    using lab tx by auto
  have "butlast (concat (map (pathTo root) text)) =
      concat (map (pathTo root) xs) @ butlast (pathTo root x)"
    using pathTo_nonempty[OF full nl, of x] by (simp add: tx butlast_append)
  then have "decodeLoop root root (butlast (concat (map (pathTo root) text))) [] =
      Inr (butlast text)"
    using decode_concat[OF full nl xs, of "butlast (pathTo root x)" "[]"]
      decode_proper_prefix[OF full nl x, of root xs]
    by (simp add: tx)
  then have "decodeLoop root root
      (butlast (encodeLoop (generateCodes (Some root) [] Map.empty) text [])) [] = Inr (butlast text)"
    by (simp only: enc)
  moreover have "\<exists>out. decodeLoop root root bits [] = Inr out"
    using decode_total[OF full nl _ nl] by simp
  ultimately show ?thesis by blast
qed

theorem decode_reports_no_error_witness:
  "mainTree ''aab'' (innerNode (leafNode CHR ''b'' 1) (leafNode CHR ''a'' 2)) \<and>
   2 \<le> card (set ''aab'') \<and>
   (\<exists>out. decodeLoop (innerNode (leafNode CHR ''b'' 1) (leafNode CHR ''a'' 2))
      (innerNode (leafNode CHR ''b'' 1) (leafNode CHR ''a'' 2)) ''1x01'' [] = Inr out) \<and>
   decodeLoop (innerNode (leafNode CHR ''b'' 1) (leafNode CHR ''a'' 2))
     (innerNode (leafNode CHR ''b'' 1) (leafNode CHR ''a'' 2))
     (butlast (encodeLoop (generateCodes (Some (innerNode (leafNode CHR ''b'' 1)
        (leafNode CHR ''a'' 2))) [] Map.empty) ''aab'' [])) [] = Inr (butlast ''aab'')"
proof -
  have c: "2 \<le> card (set ''aab'')" by simp
  show ?thesis
    using example_aab c decode_reports_no_error[OF example_aab c, of "''1x01''"] by simp
qed

text \<open>
  C4, as stated, fails: the encode loop appends no pad bits. For \<^verbatim>\<open>"aab"\<close> the encoded
  text is the three bits \<^verbatim>\<open>"110"\<close>, where the claim asks for five zero bits after them.
\<close>

theorem encoded_text_has_no_padding:
  "mainTree ''aab'' (innerNode (leafNode CHR ''b'' 1) (leafNode CHR ''a'' 2)) \<and>
   encodeLoop (generateCodes (Some (innerNode (leafNode CHR ''b'' 1) (leafNode CHR ''a'' 2))) []
     Map.empty) ''aab'' [] = ''110'' \<and>
   (8 - length ''110'' mod 8) mod 8 = 5 \<and>
   ''110'' \<noteq> ''110'' @ replicate 5 (CHR ''0'')"
  using example_aab by (simp add: innerNode_def leafNode_def)

text \<open>
  C4, amended. For every non-empty text the encoded text is exactly the concatenation, for
  each byte of the text in order, of that byte's code \<open>cs\<close>, with nothing after it; its length
  is the sum of the lengths of these codes.
\<close>

theorem encoded_text_is_code_concat:
  "mainTree text root \<Longrightarrow>
     \<exists>cs. map (generateCodes (Some root) [] Map.empty) text = map Some cs \<and>
          encodeLoop (generateCodes (Some root) [] Map.empty) text [] = concat cs \<and>
          length (encodeLoop (generateCodes (Some root) [] Map.empty) text []) =
            sum_list (map length cs)"
proof -
  assume m: "mainTree text root"
  let ?code = "\<lambda>c. if isLeaf root then ''0'' else pathTo root c"
  have "map (generateCodes (Some root) [] Map.empty) text = map Some (map ?code text)"
    by (simp add: mainTree_codes[OF m])
  moreover have "encodeLoop (generateCodes (Some root) [] Map.empty) text [] =
      concat (map ?code text)"
    by (simp add: encodeLoop_eq mainTree_codes[OF m] cong: map_cong)
  ultimately show ?thesis by (metis length_concat)
qed

theorem encoded_text_is_code_concat_witness:
  "mainTree ''aab'' (innerNode (leafNode CHR ''b'' 1) (leafNode CHR ''a'' 2)) \<and>
   (\<exists>cs. map (generateCodes (Some (innerNode (leafNode CHR ''b'' 1) (leafNode CHR ''a'' 2))) []
            Map.empty) ''aab'' = map Some cs \<and>
         encodeLoop (generateCodes (Some (innerNode (leafNode CHR ''b'' 1) (leafNode CHR ''a'' 2)))
            [] Map.empty) ''aab'' [] = concat cs \<and>
         length (encodeLoop (generateCodes (Some (innerNode (leafNode CHR ''b'' 1)
            (leafNode CHR ''a'' 2))) [] Map.empty) ''aab'' []) = sum_list (map length cs))"
  using example_aab encoded_text_is_code_concat[OF example_aab] by blast

text \<open>
  C2. In the code table generated for a non-empty text every code is a non-empty string, and
  the code of a byte is not a prefix of the code of any other byte.
\<close>

theorem codes_prefix_free:
  "mainTree text root \<Longrightarrow> generateCodes (Some root) [] Map.empty a = Some ca \<Longrightarrow>
     ca \<noteq> [] \<and>
     (\<forall>b cb. b \<noteq> a \<longrightarrow> generateCodes (Some root) [] Map.empty b = Some cb \<longrightarrow>
        \<not> prefix ca cb \<and> \<not> prefix cb ca)"
proof -
  assume m: "mainTree text root" and a: "generateCodes (Some root) [] Map.empty a = Some ca"
  have full: "fullTree root" using m by (rule mainTree_full)
  have lab: "labels root = set text" using m by (rule mainTree_labels)
  show ?thesis
  proof (cases "isLeaf root")
    case True
    then have "card (set text) = 1" by (simp add: mainTree_leaf_iff[OF m])
    then obtain c where "set text = {c}" by (auto simp: card_1_singleton_iff)
    then show ?thesis using a True
      by (auto simp: mainTree_codes[OF m] split: if_splits)
  next
    case False
    have ain: "a \<in> set text" and ca: "ca = pathTo root a"
      using a False by (auto simp: mainTree_codes[OF m] split: if_splits)
    have "ca \<noteq> []" using ca pathTo_nonempty[OF full False] by simp
    moreover have "\<not> prefix ca cb \<and> \<not> prefix cb ca"
      if "b \<noteq> a" "generateCodes (Some root) [] Map.empty b = Some cb" for b cb
    proof -
      have "b \<in> set text" "cb = pathTo root b"
        using that(2) False by (auto simp: mainTree_codes[OF m] split: if_splits)
      then show ?thesis
        using pathTo_prefix_free[OF full, of a b] pathTo_prefix_free[OF full, of b a] that(1) ain ca lab
        by auto
    qed
    ultimately show ?thesis by blast
  qed
qed

theorem codes_prefix_free_witness:
  "mainTree ''aaaabbc''
     (innerNode (innerNode (leafNode CHR ''c'' 1) (leafNode CHR ''b'' 2)) (leafNode CHR ''a'' 4)) \<and>
   generateCodes (Some (innerNode (innerNode (leafNode CHR ''c'' 1) (leafNode CHR ''b'' 2))
     (leafNode CHR ''a'' 4))) [] Map.empty (CHR ''b'') = Some ''01'' \<and>
   generateCodes (Some (innerNode (innerNode (leafNode CHR ''c'' 1) (leafNode CHR ''b'' 2))
     (leafNode CHR ''a'' 4))) [] Map.empty (CHR ''c'') = Some ''00'' \<and>
   ''01'' \<noteq> [] \<and> \<not> prefix ''01'' ''00'' \<and> \<not> prefix ''00'' ''01''"
proof -
  let ?t = "innerNode (innerNode (leafNode CHR ''c'' 1) (leafNode CHR ''b'' 2)) (leafNode CHR ''a'' 4)"
  have b: "generateCodes (Some ?t) [] Map.empty (CHR ''b'') = Some ''01''"
    by (simp add: innerNode_def leafNode_def)
  have c: "generateCodes (Some ?t) [] Map.empty (CHR ''c'') = Some ''00''"
    by (simp add: innerNode_def leafNode_def)
  have "CHR ''c'' \<noteq> CHR ''b''" by simp
  then show ?thesis using example_aaaabbc b c codes_prefix_free[OF example_aaaabbc b] by blast
qed

text \<open>
  C3. In the code table generated for a text shorter than \<open>2^31\<close> bytes (so that no count and no
  sum leaves the source's \<^verbatim>\<open>int\<close>), a byte whose frequency in \<open>freqMap\<close> is strictly greater
  than that of another byte has a code that is no longer than the other's.
\<close>

theorem more_frequent_not_longer:
  "mainTree text root \<Longrightarrow> length text < 2 ^ 31 \<Longrightarrow>
   countFreq text Map.empty a = Some fa \<Longrightarrow> countFreq text Map.empty b = Some fb \<Longrightarrow>
   fb < fa \<Longrightarrow>
   generateCodes (Some root) [] Map.empty a = Some ca \<Longrightarrow>
   generateCodes (Some root) [] Map.empty b = Some cb \<Longrightarrow>
     length ca \<le> length cb"
proof -
  assume m: "mainTree text root"
    and fa: "countFreq text Map.empty a = Some fa" and fb: "countFreq text Map.empty b = Some fb"
    and lt: "fb < fa"
    and ca: "generateCodes (Some root) [] Map.empty a = Some ca"
    and cb: "generateCodes (Some root) [] Map.empty b = Some cb"
  have full: "fullTree root" using m by (rule mainTree_full)
  have dist: "distinct (map fst (leaves root))" using m by (rule mainTree_leaves(1))
  show ?thesis
  proof (cases "isLeaf root")
    case True
    then show ?thesis using ca cb by (auto simp: mainTree_codes[OF m] split: if_splits)
  next
    case False
    have a: "a \<in> set text" "fa = int (count_list text a)"
      and b: "b \<in> set text" "fb = int (count_list text b)"
      using fa fb by (auto simp: countFreq_eq split: if_splits)
    have la: "(a, fa) \<in> set (leaves root)" and lb: "(b, fb) \<in> set (leaves root)"
      using a b by (simp_all add: mainTree_leaves(2)[OF m])
    have "ca = pathTo root a" "cb = pathTo root b"
      using ca cb False by (auto simp: mainTree_codes[OF m] split: if_splits)
    then have "Node a fa None None \<in> level (length ca) root"
      "Node b fb None None \<in> level (length cb) root"
      using leaf_level[OF full dist la] leaf_level[OF full dist lb] by simp_all
    then show ?thesis
      using level_monotone[OF mainTree_huffInv[OF m] dist] lt by fastforce
  qed
qed

theorem more_frequent_not_longer_witness:
  "mainTree ''aaaabbc''
     (innerNode (innerNode (leafNode CHR ''c'' 1) (leafNode CHR ''b'' 2)) (leafNode CHR ''a'' 4)) \<and>
   length ''aaaabbc'' < 2 ^ 31 \<and>
   countFreq ''aaaabbc'' Map.empty (CHR ''a'') = Some 4 \<and>
   countFreq ''aaaabbc'' Map.empty (CHR ''c'') = Some 1 \<and> (1::int) < 4 \<and>
   generateCodes (Some (innerNode (innerNode (leafNode CHR ''c'' 1) (leafNode CHR ''b'' 2))
     (leafNode CHR ''a'' 4))) [] Map.empty (CHR ''a'') = Some ''1'' \<and>
   generateCodes (Some (innerNode (innerNode (leafNode CHR ''c'' 1) (leafNode CHR ''b'' 2))
     (leafNode CHR ''a'' 4))) [] Map.empty (CHR ''c'') = Some ''00'' \<and>
   length ''1'' \<le> length ''00''"
proof -
  let ?t = "innerNode (innerNode (leafNode CHR ''c'' 1) (leafNode CHR ''b'' 2)) (leafNode CHR ''a'' 4)"
  have len: "length ''aaaabbc'' < 2 ^ 31" by simp
  have fa: "countFreq ''aaaabbc'' Map.empty (CHR ''a'') = Some 4" by simp
  have fc: "countFreq ''aaaabbc'' Map.empty (CHR ''c'') = Some 1" by simp
  have lt: "(1::int) < 4" by simp
  have a: "generateCodes (Some ?t) [] Map.empty (CHR ''a'') = Some ''1''"
    by (simp add: innerNode_def leafNode_def)
  have c: "generateCodes (Some ?t) [] Map.empty (CHR ''c'') = Some ''00''"
    by (simp add: innerNode_def leafNode_def)
  show ?thesis
    using example_aaaabbc len fa fc lt a c
      more_frequent_not_longer[OF example_aaaabbc len fa fc lt a c]
    by simp
qed




end
